theory Spec2Isabelle
  imports Main
begin

section \<open>JavaScript values\<close>

text \<open>
  A value handed to the cache is any JavaScript value. The cache only ever tests a value
  against \<^verbatim>\<open>undefined\<close> (\<^verbatim>\<open>=== undefined\<close> in \<^verbatim>\<open>get\<close> and \<^verbatim>\<open>peek\<close>), so a value is
  either \<^verbatim>\<open>undefined\<close> or something else.
\<close>

datatype 'v jsval = Undefined | Val 'v

section \<open>The recency-ordered store (\<^verbatim>\<open>lru-cache\<close>)\<close>

text \<open>
  \<^verbatim>\<open>index.js\<close> builds both segments from \<^verbatim>\<open>require('lru-cache')\<close>, which is not part of
  the sources. The store is therefore modelled from sections 3 and 4.1 of the
  specification (``OrderedStore'').
\<close>

text \<open>Modelled from the spec: an entry of the store of \<^verbatim>\<open>lru-cache\<close>, a (key, value, size)
  triple; the size is the weight of the value, computed by the store's weight function
  when the value is stored.\<close>

datatype ('k, 'v) entry = Entry (ekey: 'k) (evalue: "'v jsval") (esize: nat)

text \<open>
  Modelled from the spec: the state of an OrderedStore (the \<^verbatim>\<open>LRU\<close> object of
  \<^verbatim>\<open>lru-cache\<close>). \<open>entries\<close> is the recency order, most recently used first;
  \<open>capacity\<close> is the limit on the cumulative size (option \<^verbatim>\<open>max\<close>); \<open>weight\<close> is the
  weight function (option \<^verbatim>\<open>length\<close>, 1 per entry by default); \<open>hook\<close> is the removal
  hook (option \<^verbatim>\<open>dispose\<close>), which may be absent. The hook of one store acts on something
  outside that store, of type \<open>'e\<close>: it is a state transformer on \<open>'e\<close>.
\<close>

record ('k, 'v, 'e) lru =
  entries :: "('k, 'v) entry list"
  capacity :: nat
  weight :: "'v jsval \<Rightarrow> nat"
  hook :: "('k \<Rightarrow> 'v jsval \<Rightarrow> 'e \<Rightarrow> 'e) option"

text \<open>
  Modelled from the spec: construction options of one store, as \<^verbatim>\<open>index.js\<close> passes them:
  a bare count (``count-based capacity with unit weight'') or an options object with
  \<^verbatim>\<open>max\<close> and an optional \<^verbatim>\<open>length\<close>.
\<close>

datatype 'v segment_options = Count nat | Options nat "('v jsval \<Rightarrow> nat) option"

text \<open>Modelled from the spec: the capacity and the weight function that the options of
  one store stand for; the default weight is 1 per entry.\<close>

fun options_max :: "'v segment_options \<Rightarrow> nat" where
  "options_max (Count n) = n"
| "options_max (Options n f) = n"

fun options_length :: "'v segment_options \<Rightarrow> 'v jsval \<Rightarrow> nat" where
  "options_length (Count n) = (\<lambda>v. 1)"
| "options_length (Options n None) = (\<lambda>v. 1)"
| "options_length (Options n (Some f)) = f"

text \<open>Modelled from the spec: \<^verbatim>\<open>new LRU(options)\<close>, an empty store; the removal hook is
  registered at construction time.\<close>

definition LRU_new ::
  "'v segment_options \<Rightarrow> ('k \<Rightarrow> 'v jsval \<Rightarrow> 'e \<Rightarrow> 'e) option \<Rightarrow> ('k, 'v, 'e) lru" where
  "LRU_new options dispose_option =
     \<lparr> entries = [], capacity = options_max options,
       weight = options_length options, hook = dispose_option \<rparr>"

text \<open>Modelled from the spec: one invocation of the removal hook, for an entry that has
  left the store; nothing happens when no hook is registered.\<close>

definition notify :: "('k, 'v, 'e) lru \<Rightarrow> ('k, 'v) entry \<Rightarrow> 'e \<Rightarrow> 'e" where
  "notify s e env = (case hook s of None \<Rightarrow> env | Some d \<Rightarrow> d (ekey e) (evalue e) env)"

text \<open>Modelled from the spec: \<^verbatim>\<open>length\<close> (cumulative weighted size) and \<^verbatim>\<open>itemCount\<close>.\<close>

definition LRU_length :: "('k, 'v, 'e) lru \<Rightarrow> nat" where
  "LRU_length s = sum_list (map esize (entries s))"

definition LRU_itemCount :: "('k, 'v, 'e) lru \<Rightarrow> nat" where
  "LRU_itemCount s = length (entries s)"

text \<open>Modelled from the spec: \<^verbatim>\<open>has\<close>, \<^verbatim>\<open>peek\<close> (no recency mutation) and \<^verbatim>\<open>get\<close> (a hit
  becomes most recently used; the removal hook is not invoked). A miss is the absent
  sentinel \<^verbatim>\<open>undefined\<close>.\<close>

definition LRU_has :: "'k \<Rightarrow> ('k, 'v, 'e) lru \<Rightarrow> bool" where
  "LRU_has k s = (find (\<lambda>e. ekey e = k) (entries s) \<noteq> None)"

definition LRU_peek :: "'k \<Rightarrow> ('k, 'v, 'e) lru \<Rightarrow> 'v jsval" where
  "LRU_peek k s =
     (case find (\<lambda>e. ekey e = k) (entries s) of None \<Rightarrow> Undefined | Some e \<Rightarrow> evalue e)"

definition LRU_get :: "'k \<Rightarrow> ('k, 'v, 'e) lru \<Rightarrow> 'v jsval \<times> ('k, 'v, 'e) lru" where
  "LRU_get k s =
     (case find (\<lambda>e. ekey e = k) (entries s) of
        None \<Rightarrow> (Undefined, s)
      | Some e \<Rightarrow> (evalue e, s\<lparr>entries := e # filter (\<lambda>x. ekey x \<noteq> k) (entries s)\<rparr>))"

text \<open>
  Modelled from the spec: capacity enforcement. While the cumulative size exceeds the
  capacity, the least recently used entry (the last one) is removed and the removal hook
  is invoked for it, one entry at a time. Section 3 requires the cumulative size to be
  within the capacity whenever a mutating call has returned, so \<open>LRU_set\<close> ends with this
  loop on either of its paths.
\<close>

function trim :: "('k, 'v, 'e) lru \<Rightarrow> 'e \<Rightarrow> ('k, 'v, 'e) lru \<times> 'e" where
  "trim s env =
     (if capacity s < LRU_length s
      then trim (s\<lparr>entries := butlast (entries s)\<rparr>) (notify s (last (entries s)) env)
      else (s, env))"
  by pat_completeness auto
termination
proof (relation "measure (\<lambda>(s, env). length (entries s))")
  show "wf (measure (\<lambda>(s, env). length (entries s)))" by simp
next
  fix s :: "('k, 'v, 'e) lru" and env :: 'e
  assume "capacity s < LRU_length s"
  then have "entries s \<noteq> []" by (auto simp: LRU_length_def)
  then show "((s\<lparr>entries := butlast (entries s)\<rparr>, notify s (last (entries s)) env), (s, env))
      \<in> measure (\<lambda>(s, env). length (entries s))"
    by (simp add: length_greater_0_conv [symmetric] del: length_greater_0_conv)
qed

declare trim.simps [simp del]

text \<open>
  Modelled from the spec: \<^verbatim>\<open>set\<close>. An existing key has its value replaced in place and
  becomes most recently used; the overwrite is not a removal, the hook is not invoked
  for the replaced value. A new key is inserted at the most recently used position.
  Then the store is brought back within its capacity.
\<close>

definition LRU_set ::
  "'k \<Rightarrow> 'v jsval \<Rightarrow> ('k, 'v, 'e) lru \<Rightarrow> 'e \<Rightarrow> ('k, 'v, 'e) lru \<times> 'e" where
  "LRU_set k v s env =
     (let e = Entry k v (weight s v) in
      if LRU_has k s
      then trim (s\<lparr>entries := e # filter (\<lambda>x. ekey x \<noteq> k) (entries s)\<rparr>) env
      else trim (s\<lparr>entries := e # entries s\<rparr>) env)"

text \<open>Modelled from the spec: \<^verbatim>\<open>del\<close>. A present entry is removed and the removal hook is
  invoked for it, the store being already in its post-removal state; an absent key is a
  no-op without a hook call.\<close>

definition LRU_del :: "'k \<Rightarrow> ('k, 'v, 'e) lru \<Rightarrow> 'e \<Rightarrow> ('k, 'v, 'e) lru \<times> 'e" where
  "LRU_del k s env =
     (case find (\<lambda>e. ekey e = k) (entries s) of
        None \<Rightarrow> (s, env)
      | Some e \<Rightarrow> (s\<lparr>entries := filter (\<lambda>x. ekey x \<noteq> k) (entries s)\<rparr>, notify s e env))"

text \<open>Modelled from the spec: \<^verbatim>\<open>reset\<close> removes all entries; each removal invokes the
  removal hook, from the most to the least recently used entry.\<close>

definition LRU_reset :: "('k, 'v, 'e) lru \<Rightarrow> 'e \<Rightarrow> ('k, 'v, 'e) lru \<times> 'e" where
  "LRU_reset s env = (s\<lparr>entries := []\<rparr>, foldl (\<lambda>en e. notify s e en) env (entries s))"

text \<open>Modelled from the spec: iteration. The visitor is called with (value, key) per
  entry; its effect is a state transformer on an accumulator. \<^verbatim>\<open>forEach\<close> goes from the
  most to the least recently used entry, \<^verbatim>\<open>rforEach\<close> the other way; \<^verbatim>\<open>keys\<close> and
  \<^verbatim>\<open>values\<close> follow \<^verbatim>\<open>forEach\<close>.\<close>

definition LRU_forEach :: "('v jsval \<Rightarrow> 'k \<Rightarrow> 'a \<Rightarrow> 'a) \<Rightarrow> ('k, 'v, 'e) lru \<Rightarrow> 'a \<Rightarrow> 'a" where
  "LRU_forEach callbackFn s acc = foldl (\<lambda>a e. callbackFn (evalue e) (ekey e) a) acc (entries s)"

definition LRU_rforEach :: "('v jsval \<Rightarrow> 'k \<Rightarrow> 'a \<Rightarrow> 'a) \<Rightarrow> ('k, 'v, 'e) lru \<Rightarrow> 'a \<Rightarrow> 'a" where
  "LRU_rforEach callbackFn s acc =
     foldl (\<lambda>a e. callbackFn (evalue e) (ekey e) a) acc (rev (entries s))"

definition LRU_keys :: "('k, 'v, 'e) lru \<Rightarrow> 'k list" where
  "LRU_keys s = map ekey (entries s)"

definition LRU_values :: "('k, 'v, 'e) lru \<Rightarrow> 'v jsval list" where
  "LRU_values s = map evalue (entries s)"

section \<open>The segmented cache (\<^verbatim>\<open>class SLRU\<close>, \<^verbatim>\<open>index.js\<close>)\<close>

text \<open>
  The two fields of an \<^verbatim>\<open>SLRU\<close> object. The probationary store has no removal hook; the
  hook of the protected store acts on the probationary store.
\<close>

record ('k, 'v) slru =
  probationaryLru :: "('k, 'v, unit) lru"
  protectedLru :: "('k, 'v, ('k, 'v, unit) lru) lru"

record 'v slru_options =
  protectedOptions :: "'v segment_options"
  probationaryOptions :: "'v segment_options"

text \<open>The closure \<^verbatim>\<open>(k, v) => { this.probationaryLru.set(k, v) }\<close> of the constructor.\<close>

definition dispose :: "'k \<Rightarrow> 'v jsval \<Rightarrow> ('k, 'v, unit) lru \<Rightarrow> ('k, 'v, unit) lru" where
  "dispose k v probationary = fst (LRU_set k v probationary ())"

text \<open>
  The constructor: the probationary store is built from its options as they are; the
  protected store is built from its options (a number becomes \<^verbatim>\<open>{ max: number }\<close>)
  with \<^verbatim>\<open>dispose\<close> set to the closure above and \<^verbatim>\<open>noDisposeOnSet = true\<close>, the only
  overwrite behaviour the store of the specification has. The options covered are those
  that give each segment a capacity, as a count or as an options object with \<^verbatim>\<open>max\<close>;
  a call without options, and \<^verbatim>\<open>protectedOptions: null\<close>, on which the assignment of
  \<^verbatim>\<open>noDisposeOnSet\<close> throws, are not.
\<close>

definition SLRU_new :: "'v slru_options \<Rightarrow> ('k, 'v) slru" where
  "SLRU_new options =
     \<lparr> probationaryLru = LRU_new (probationaryOptions options) None,
       protectedLru = LRU_new (protectedOptions options) (Some dispose) \<rparr>"

definition SLRU_get :: "'k \<Rightarrow> ('k, 'v) slru \<Rightarrow> 'v jsval \<times> ('k, 'v) slru" where
  "SLRU_get key c =
     (let (protectedItem, protected1) = LRU_get key (protectedLru c);
          probationaryItem = LRU_peek key (probationaryLru c);
          c1 = c\<lparr>protectedLru := protected1\<rparr>
      in if protectedItem = Undefined \<and> probationaryItem = Undefined then (Undefined, c1)
         else if protectedItem \<noteq> Undefined then (protectedItem, c1)
         else
           let probationary2 = fst (LRU_del key (probationaryLru c1) ());
               (protected3, probationary3) = LRU_set key probationaryItem protected1 probationary2
           in (probationaryItem,
               c1\<lparr>probationaryLru := probationary3, protectedLru := protected3\<rparr>))"

definition SLRU_peek :: "'k \<Rightarrow> ('k, 'v) slru \<Rightarrow> 'v jsval" where
  "SLRU_peek key c =
     (let protectedItem = LRU_peek key (protectedLru c);
          probationaryItem = LRU_peek key (probationaryLru c)
      in if protectedItem = Undefined then probationaryItem else protectedItem)"

definition SLRU_set :: "'k \<Rightarrow> 'v jsval \<Rightarrow> ('k, 'v) slru \<Rightarrow> ('k, 'v) slru" where
  "SLRU_set key val c =
     (if LRU_has key (protectedLru c) then
        let (protected1, probationary1) = LRU_set key val (protectedLru c) (probationaryLru c)
        in c\<lparr>probationaryLru := probationary1, protectedLru := protected1\<rparr>
      else if LRU_has key (probationaryLru c) then
        let probationary1 = fst (LRU_del key (probationaryLru c) ());
            (protected2, probationary2) = LRU_set key val (protectedLru c) probationary1
        in c\<lparr>probationaryLru := probationary2, protectedLru := protected2\<rparr>
      else c\<lparr>probationaryLru := fst (LRU_set key val (probationaryLru c) ())\<rparr>)"

definition SLRU_del :: "'k \<Rightarrow> ('k, 'v) slru \<Rightarrow> ('k, 'v) slru" where
  "SLRU_del key c =
     (let probationary1 = fst (LRU_del key (probationaryLru c) ());
          (protected2, probationary2) = LRU_del key (protectedLru c) probationary1;
          probationary3 = fst (LRU_del key probationary2 ())
      in c\<lparr>probationaryLru := probationary3, protectedLru := protected2\<rparr>)"

definition SLRU_has :: "'k \<Rightarrow> ('k, 'v) slru \<Rightarrow> bool" where
  "SLRU_has key c = (LRU_has key (protectedLru c) \<or> LRU_has key (probationaryLru c))"

definition SLRU_reset :: "('k, 'v) slru \<Rightarrow> ('k, 'v) slru" where
  "SLRU_reset c =
     (let (protected1, probationary1) = LRU_reset (protectedLru c) (probationaryLru c);
          probationary2 = fst (LRU_reset probationary1 ())
      in c\<lparr>probationaryLru := probationary2, protectedLru := protected1\<rparr>)"

definition SLRU_forEach :: "('v jsval \<Rightarrow> 'k \<Rightarrow> 'a \<Rightarrow> 'a) \<Rightarrow> ('k, 'v) slru \<Rightarrow> 'a \<Rightarrow> 'a" where
  "SLRU_forEach callbackFn c acc =
     LRU_forEach callbackFn (probationaryLru c) (LRU_forEach callbackFn (protectedLru c) acc)"

definition SLRU_rforEach :: "('v jsval \<Rightarrow> 'k \<Rightarrow> 'a \<Rightarrow> 'a) \<Rightarrow> ('k, 'v) slru \<Rightarrow> 'a \<Rightarrow> 'a" where
  "SLRU_rforEach callbackFn c acc =
     LRU_rforEach callbackFn (probationaryLru c) (LRU_rforEach callbackFn (protectedLru c) acc)"

definition SLRU_keys :: "('k, 'v) slru \<Rightarrow> 'k list" where
  "SLRU_keys c = LRU_keys (protectedLru c) @ LRU_keys (probationaryLru c)"

definition SLRU_values :: "('k, 'v) slru \<Rightarrow> 'v jsval list" where
  "SLRU_values c = LRU_values (protectedLru c) @ LRU_values (probationaryLru c)"

definition SLRU_length :: "('k, 'v) slru \<Rightarrow> nat" where
  "SLRU_length c = LRU_length (protectedLru c) + LRU_length (probationaryLru c)"

definition SLRU_itemCount :: "('k, 'v) slru \<Rightarrow> nat" where
  "SLRU_itemCount c = LRU_itemCount (protectedLru c) + LRU_itemCount (probationaryLru c)"

subsection \<open>Sequences of public calls\<close>

datatype ('k, 'v) call =
  Get 'k | Peek 'k | Set 'k "'v jsval" | Del 'k | Has 'k | Reset

fun exec :: "('k, 'v) call \<Rightarrow> ('k, 'v) slru \<Rightarrow> ('k, 'v) slru" where
  "exec (Get k) c = snd (SLRU_get k c)"
| "exec (Peek k) c = c"
| "exec (Set k v) c = SLRU_set k v c"
| "exec (Del k) c = SLRU_del k c"
| "exec (Has k) c = c"
| "exec Reset c = SLRU_reset c"

definition run :: "('k, 'v) call list \<Rightarrow> ('k, 'v) slru \<Rightarrow> ('k, 'v) slru" where
  "run calls c = foldl (\<lambda>c call. exec call c) c calls"


subsection \<open>Invariants and example caches\<close>

text \<open>A store is well formed when no key occurs twice and its cumulative size is within
  its capacity.\<close>

definition store_ok :: "('k, 'v, 'e) lru \<Rightarrow> bool" where
  "store_ok s \<longleftrightarrow> distinct (map ekey (entries s)) \<and> LRU_length s \<le> capacity s"

text \<open>The invariant of a cache: the protected store carries the demotion hook of the
  constructor, both stores are well formed, and no key lives in both.\<close>

definition cache_inv :: "('k, 'v) slru \<Rightarrow> bool" where
  "cache_inv c \<longleftrightarrow>
     hook (protectedLru c) = Some dispose
     \<and> store_ok (protectedLru c) \<and> store_ok (probationaryLru c)
     \<and> ekey ` set (entries (protectedLru c)) \<inter> ekey ` set (entries (probationaryLru c)) = {}"

text \<open>The configured capacity and weight function of the two segments.\<close>

definition config ::
  "('k, 'v) slru \<Rightarrow> (nat \<times> ('v jsval \<Rightarrow> nat)) \<times> (nat \<times> ('v jsval \<Rightarrow> nat))" where
  "config c = ((capacity (protectedLru c), weight (protectedLru c)),
               (capacity (probationaryLru c), weight (probationaryLru c)))"

definition options_config ::
  "'v slru_options \<Rightarrow> (nat \<times> ('v jsval \<Rightarrow> nat)) \<times> (nat \<times> ('v jsval \<Rightarrow> nat))" where
  "options_config options =
     ((options_max (protectedOptions options), options_length (protectedOptions options)),
      (options_max (probationaryOptions options), options_length (probationaryOptions options)))"

text \<open>The caches of \<^verbatim>\<open>test/test-index.js\<close>:
  \<^verbatim>\<open>new SLRU({ protectedOptions: 2, probationaryOptions: 2 })\<close> and \<^verbatim>\<open>setupCache()\<close>.\<close>

definition options22 :: "string slru_options" where
  "options22 = \<lparr> protectedOptions = Count 2, probationaryOptions = Count 2 \<rparr>"

definition setupCalls :: "(string, string) call list" where
  "setupCalls = [Set ''0'' (Val ''0''), Get ''0'', Set ''1'' (Val ''1''), Get ''1'',
                 Set ''2'' (Val ''2''), Set ''3'' (Val ''3'')]"

definition setupCache :: "(string, string) slru" where
  "setupCache = run setupCalls (SLRU_new options22)"

text \<open>The sequence of the demotion test (``should evict items from protected section to
  probationary section'').\<close>

definition cascadeCalls :: "(string, string) call list" where
  "cascadeCalls = [Set ''0'' (Val ''0''), Get ''0'', Set ''1'' (Val ''1''), Get ''1'',
                   Set ''2'' (Val ''2''), Get ''2'']"

text \<open>A protected segment of capacity 1 whose weight function is \<^verbatim>\<open>() => 2\<close> (the weight
  function of the test ``should pass options to lru-cache''): no value fits it.\<close>

definition weight2 :: "string jsval \<Rightarrow> nat" where
  "weight2 v = 2"

definition narrowOptions :: "string slru_options" where
  "narrowOptions = \<lparr> protectedOptions = Options 1 (Some weight2), probationaryOptions = Count 2 \<rparr>"




text \<open>A key is stored with the value \<^verbatim>\<open>undefined\<close> when it occurs in a segment and every
  entry that carries it holds \<^verbatim>\<open>undefined\<close>.\<close>

definition stored_undefined :: "'k \<Rightarrow> ('k, 'v) slru \<Rightarrow> bool" where
  "stored_undefined k c \<longleftrightarrow>
     list_ex (\<lambda>e. ekey e = k) (entries (protectedLru c) @ entries (probationaryLru c))
     \<and> list_all (\<lambda>e. ekey e = k \<longrightarrow> evalue e = Undefined)
          (entries (protectedLru c) @ entries (probationaryLru c))"

text \<open>A key is not stored when no entry of either segment carries it: a lookup of it is
  a miss.\<close>

definition not_stored :: "'k \<Rightarrow> ('k, 'v) slru \<Rightarrow> bool" where
  "not_stored k c \<longleftrightarrow>
     \<not> list_ex (\<lambda>e. ekey e = k) (entries (protectedLru c) @ entries (probationaryLru c))"

section \<open>Properties of the store\<close>

lemma LRU_has_iff: "LRU_has k s \<longleftrightarrow> k \<in> ekey ` set (entries s)"
  by (auto simp: LRU_has_def find_None_iff)

lemma LRU_get_miss: "\<not> LRU_has k s \<Longrightarrow> LRU_get k s = (Undefined, s)"
  by (simp add: LRU_has_def LRU_get_def)

lemma LRU_peek_present: "LRU_peek k s \<noteq> Undefined \<Longrightarrow> LRU_has k s"
  by (auto simp: LRU_peek_def LRU_has_def split: option.splits)

lemma LRU_head_lookup:
  "entries s = Entry k v w # rest \<Longrightarrow> LRU_has k s \<and> LRU_peek k s = v"
  by (simp add: LRU_has_def LRU_peek_def)

subsection \<open>Capacity enforcement\<close>

lemma trim_fields:
  "capacity (fst (trim s env)) = capacity s \<and> weight (fst (trim s env)) = weight s
   \<and> hook (fst (trim s env)) = hook s"
proof (induction s env rule: trim.induct)
  case (1 s env)
  show ?case
  proof (cases "capacity s < LRU_length s")
    case True
    with 1 show ?thesis by (subst (1 2 3) trim.simps) simp
  next
    case False
    then show ?thesis by (subst (1 2 3) trim.simps) simp
  qed
qed

lemma trim_within: "LRU_length (fst (trim s env)) \<le> capacity s"
proof (induction s env rule: trim.induct)
  case (1 s env)
  show ?case
  proof (cases "capacity s < LRU_length s")
    case True
    with 1 show ?thesis by (subst trim.simps) simp
  next
    case False
    then show ?thesis by (subst trim.simps) simp
  qed
qed


text \<open>What is left is a prefix of the recency order; the hook has seen the entries that
  were cut off, the least recently used one first.\<close>

lemma trim_split:
  "\<exists>ev. entries s = entries (fst (trim s env)) @ ev
      \<and> snd (trim s env) = foldr (notify s) ev env"
proof (induction s env rule: trim.induct)
  case (1 s env)
  show ?case
  proof (cases "capacity s < LRU_length s")
    case True
    then have ne: "entries s \<noteq> []" by (auto simp: LRU_length_def)
    let ?s' = "s\<lparr>entries := butlast (entries s)\<rparr>"
    let ?env' = "notify s (last (entries s)) env"
    from 1 [OF True] obtain ev where
      ev: "entries ?s' = entries (fst (trim ?s' ?env')) @ ev"
          "snd (trim ?s' ?env') = foldr (notify ?s') ev ?env'"
      by blast
    have n: "notify ?s' = notify s" by (simp add: notify_def fun_eq_iff)
    have t: "trim s env = trim ?s' ?env'" using True by (subst trim.simps) simp
    have kept: "butlast (entries s) = entries (fst (trim s env)) @ ev"
      using ev(1) t by simp
    have "entries s = butlast (entries s) @ [last (entries s)]"
      using ne by simp
    also have "\<dots> = (entries (fst (trim s env)) @ ev) @ [last (entries s)]"
      by (simp only: kept)
    finally have "entries s = entries (fst (trim s env)) @ (ev @ [last (entries s)])"
      by simp
    moreover have "snd (trim s env) = foldr (notify s) (ev @ [last (entries s)]) env"
      using ev(2) n t by simp
    ultimately show ?thesis by blast
  next
    case False
    then have "trim s env = (s, env)" by (subst trim.simps) simp
    then show ?thesis by simp
  qed
qed

text \<open>An entry at the most recently used position that fits the capacity on its own is
  never cut off.\<close>

lemma trim_keeps_head:
  "entries s = e # es \<Longrightarrow> esize e \<le> capacity s \<Longrightarrow> \<exists>es'. entries (fst (trim s env)) = e # es'"
proof (induction s env arbitrary: es rule: trim.induct)
  case (1 s env)
  show ?case
  proof (cases "capacity s < LRU_length s")
    case True
    with 1(2,3) have ne: "es \<noteq> []" by (auto simp: LRU_length_def)
    let ?s' = "s\<lparr>entries := butlast (entries s)\<rparr>"
    have "entries ?s' = e # butlast es" using 1(2) ne by simp
    moreover have "esize e \<le> capacity ?s'" using 1(3) by simp
    ultimately have "\<exists>es'. entries (fst (trim ?s' (notify s (last (entries s)) env))) = e # es'"
      using 1(1) [OF True] by blast
    then show ?thesis using True by (subst trim.simps) simp
  next
    case False
    then show ?thesis using 1(2) by (subst trim.simps) simp
  qed
qed

subsection \<open>\<^verbatim>\<open>set\<close>, \<^verbatim>\<open>del\<close> and \<^verbatim>\<open>get\<close> on one store\<close>

text \<open>Both paths of \<open>LRU_set\<close> put the new entry in front of the other entries.\<close>

lemma LRU_set_eq:
  "LRU_set k v s env =
     trim (s\<lparr>entries := Entry k v (weight s v) # filter (\<lambda>x. ekey x \<noteq> k) (entries s)\<rparr>) env"
proof (cases "LRU_has k s")
  case True
  then show ?thesis by (simp add: LRU_set_def)
next
  case False
  then have "filter (\<lambda>x. ekey x \<noteq> k) (entries s) = entries s"
    by (auto simp: LRU_has_iff filter_id_conv)
  with False show ?thesis by (simp add: LRU_set_def)
qed

lemma LRU_set_split:
  obtains ev where
    "Entry k v (weight s v) # filter (\<lambda>x. ekey x \<noteq> k) (entries s)
       = entries (fst (LRU_set k v s env)) @ ev"
    "snd (LRU_set k v s env) = foldr (notify s) ev env"
proof -
  let ?s = "s\<lparr>entries := Entry k v (weight s v) # filter (\<lambda>x. ekey x \<noteq> k) (entries s)\<rparr>"
  obtain ev where "entries ?s = entries (fst (trim ?s env)) @ ev"
    "snd (trim ?s env) = foldr (notify ?s) ev env"
    using trim_split [of ?s env] by blast
  moreover have "notify ?s = notify s" by (simp add: notify_def fun_eq_iff)
  ultimately show thesis using that by (simp add: LRU_set_eq)
qed

lemma LRU_set_fields:
  "capacity (fst (LRU_set k v s env)) = capacity s"
  "weight (fst (LRU_set k v s env)) = weight s"
  "hook (fst (LRU_set k v s env)) = hook s"
  by (simp_all add: LRU_set_eq trim_fields)

lemma LRU_set_within: "LRU_length (fst (LRU_set k v s env)) \<le> capacity s"
  using trim_within [of "s\<lparr>entries := Entry k v (weight s v) # filter (\<lambda>x. ekey x \<noteq> k) (entries s)\<rparr>" env]
  by (simp add: LRU_set_eq)

lemma distinct_set_list:
  "distinct (map ekey es) \<Longrightarrow> distinct (map ekey (Entry k v w # filter (\<lambda>x. ekey x \<noteq> k) es))"
  by (auto simp: distinct_map_filter)

lemma LRU_set_ok:
  assumes "distinct (map ekey (entries s))"
  shows "store_ok (fst (LRU_set k v s env))"
    and "ekey ` set (entries (fst (LRU_set k v s env))) \<subseteq> insert k (ekey ` set (entries s))"
proof -
  obtain ev where ev: "Entry k v (weight s v) # filter (\<lambda>x. ekey x \<noteq> k) (entries s)
       = entries (fst (LRU_set k v s env)) @ ev"
    by (rule LRU_set_split)
  have "distinct (map ekey (entries (fst (LRU_set k v s env)) @ ev))"
    using distinct_set_list [OF assms, of k v "weight s v"] ev by simp
  then have "distinct (map ekey (entries (fst (LRU_set k v s env))))" by simp
  then show "store_ok (fst (LRU_set k v s env))"
    using LRU_set_within [of k v s env] by (simp add: store_ok_def LRU_set_fields)
  have "set (entries (fst (LRU_set k v s env)))
      \<subseteq> set (Entry k v (weight s v) # filter (\<lambda>x. ekey x \<noteq> k) (entries s))"
    by (subst ev) simp
  then show "ekey ` set (entries (fst (LRU_set k v s env))) \<subseteq> insert k (ekey ` set (entries s))"
    by auto
qed

text \<open>A new value that fits the capacity on its own stays at the most recently used
  position; the entries cut off are among the other entries of the store.\<close>

lemma LRU_set_new_head:
  assumes "weight s v \<le> capacity s"
  shows "\<exists>rest ev. entries (fst (LRU_set k v s env)) = Entry k v (weight s v) # rest
           \<and> filter (\<lambda>x. ekey x \<noteq> k) (entries s) = rest @ ev
           \<and> snd (LRU_set k v s env) = foldr (notify s) ev env"
proof -
  let ?s = "s\<lparr>entries := Entry k v (weight s v) # filter (\<lambda>x. ekey x \<noteq> k) (entries s)\<rparr>"
  obtain rest where rest: "entries (fst (LRU_set k v s env)) = Entry k v (weight s v) # rest"
    using trim_keeps_head [of ?s "Entry k v (weight s v)" _ env] assms
    by (auto simp: LRU_set_eq)
  obtain ev where ev: "Entry k v (weight s v) # filter (\<lambda>x. ekey x \<noteq> k) (entries s)
       = entries (fst (LRU_set k v s env)) @ ev"
    and env: "snd (LRU_set k v s env) = foldr (notify s) ev env"
    by (rule LRU_set_split)
  from ev rest have "filter (\<lambda>x. ekey x \<noteq> k) (entries s) = rest @ ev" by simp
  with rest env show ?thesis by blast
qed

lemma filter_size: "sum_list (map esize (filter P es)) \<le> sum_list (map esize es)"
  by (induction es) auto

lemma find_size:
  "distinct (map ekey es) \<Longrightarrow> find (\<lambda>e. ekey e = k) es = Some e \<Longrightarrow>
   esize e + sum_list (map esize (filter (\<lambda>x. ekey x \<noteq> k) es)) = sum_list (map esize es)"
proof (induction es)
  case Nil
  then show ?case by simp
next
  case (Cons a es)
  show ?case
  proof (cases "ekey a = k")
    case True
    with Cons.prems have "a = e" "k \<notin> ekey ` set es" by auto
    then have "filter (\<lambda>x. ekey x \<noteq> k) es = es" by (auto simp: filter_id_conv)
    with True \<open>a = e\<close> show ?thesis by simp
  next
    case False
    with Cons show ?thesis by simp
  qed
qed

lemma LRU_del_entries:
  "entries (fst (LRU_del k s env)) = filter (\<lambda>x. ekey x \<noteq> k) (entries s)"
proof (cases "find (\<lambda>e. ekey e = k) (entries s)")
  case None
  then have "filter (\<lambda>x. ekey x \<noteq> k) (entries s) = entries s"
    by (auto simp: find_None_iff filter_id_conv)
  with None show ?thesis by (simp add: LRU_del_def)
next
  case (Some e)
  then show ?thesis by (simp add: LRU_del_def)
qed

lemma LRU_del_fields:
  "capacity (fst (LRU_del k s env)) = capacity s"
  "weight (fst (LRU_del k s env)) = weight s"
  "hook (fst (LRU_del k s env)) = hook s"
  by (simp_all add: LRU_del_def split: option.splits)

lemma LRU_del_ok: "store_ok s \<Longrightarrow> store_ok (fst (LRU_del k s env))"
  using filter_size [of "\<lambda>x. ekey x \<noteq> k" "entries s"]
  by (simp add: store_ok_def LRU_del_entries LRU_del_fields LRU_length_def distinct_map_filter)

lemma LRU_del_keys:
  "ekey ` set (entries (fst (LRU_del k s env))) = ekey ` set (entries s) - {k}"
  by (auto simp: LRU_del_entries)

lemma LRU_del_absent: "\<not> LRU_has k (fst (LRU_del k s env))"
  by (simp add: LRU_has_iff LRU_del_keys)

lemma LRU_del_env:
  "snd (LRU_del k s env) =
     (case find (\<lambda>e. ekey e = k) (entries s) of None \<Rightarrow> env | Some e \<Rightarrow> notify s e env)"
  by (simp add: LRU_del_def split: option.splits)

lemma LRU_get_fields:
  "capacity (snd (LRU_get k s)) = capacity s"
  "weight (snd (LRU_get k s)) = weight s"
  "hook (snd (LRU_get k s)) = hook s"
  by (simp_all add: LRU_get_def split: option.splits)

lemma LRU_get_keys: "ekey ` set (entries (snd (LRU_get k s))) = ekey ` set (entries s)"
  by (auto simp: LRU_get_def find_Some_iff split: option.splits)

lemma LRU_get_ok: "store_ok s \<Longrightarrow> store_ok (snd (LRU_get k s))"
proof (cases "find (\<lambda>e. ekey e = k) (entries s)")
  case None
  assume "store_ok s"
  with None show ?thesis by (simp add: LRU_get_def)
next
  case (Some e)
  assume ok: "store_ok s"
  then have d: "distinct (map ekey (entries s))" by (simp add: store_ok_def)
  have "ekey e = k" using Some by (auto simp: find_Some_iff)
  then have "distinct (map ekey (e # filter (\<lambda>x. ekey x \<noteq> k) (entries s)))"
    using d by (auto simp: distinct_map_filter)
  then show ?thesis
    using ok find_size [OF d Some] Some
    by (simp add: store_ok_def LRU_get_def LRU_length_def)
qed

section \<open>Demotion: the hook of the protected store\<close>

lemma notify_dispose:
  "hook s = Some dispose \<Longrightarrow> notify s = (\<lambda>e. dispose (ekey e) (evalue e))"
  by (simp add: notify_def fun_eq_iff)

lemma dispose_fields:
  "capacity (dispose k v p) = capacity p" "weight (dispose k v p) = weight p"
  by (simp_all add: dispose_def LRU_set_fields)

lemma dispose_ok:
  assumes "store_ok p"
  shows "store_ok (dispose k v p)"
    and "ekey ` set (entries (dispose k v p)) \<subseteq> insert k (ekey ` set (entries p))"
  using assms LRU_set_ok [of p k v "()"]
  by (simp_all add: dispose_def store_ok_def)

text \<open>A run of demotions leaves the probationary store well formed, and adds no key
  beyond those demoted.\<close>

lemma demote_all_ok:
  assumes "store_ok p"
  shows "store_ok (foldr (\<lambda>e. dispose (ekey e) (evalue e)) ev p)
    \<and> ekey ` set (entries (foldr (\<lambda>e. dispose (ekey e) (evalue e)) ev p))
        \<subseteq> ekey ` set ev \<union> ekey ` set (entries p)
    \<and> capacity (foldr (\<lambda>e. dispose (ekey e) (evalue e)) ev p) = capacity p
    \<and> weight (foldr (\<lambda>e. dispose (ekey e) (evalue e)) ev p) = weight p"
proof (induction ev)
  case Nil
  show ?case using assms by simp
next
  case (Cons e ev)
  let ?p = "foldr (\<lambda>e. dispose (ekey e) (evalue e)) ev p"
  from Cons have ok: "store_ok ?p"
    and sub: "ekey ` set (entries ?p) \<subseteq> ekey ` set ev \<union> ekey ` set (entries p)"
    and flds: "capacity ?p = capacity p" "weight ?p = weight p"
    by blast+
  note d = dispose_ok [OF ok, of "ekey e" "evalue e"]
  have "ekey ` set (entries (dispose (ekey e) (evalue e) ?p))
      \<subseteq> ekey ` set (e # ev) \<union> ekey ` set (entries p)"
    using d(2) sub by auto
  then show ?case using d(1) flds by (simp add: dispose_fields)
qed

lemma demote_all_keys:
  "ekey ` set (entries (foldr (\<lambda>e. dispose (ekey e) (evalue e)) ev p))
     \<subseteq> ekey ` set ev \<union> ekey ` set (entries p)"
  if "store_ok p" for p :: "('k, 'v, unit) lru"
  using demote_all_ok [OF that, of ev] by blast

lemma demote_foldl_fields:
  "capacity (foldl (\<lambda>en e. notify s e en) p es) = capacity p
   \<and> weight (foldl (\<lambda>en e. notify s e en) p es) = weight p"
  if "hook s = Some dispose" for p :: "('k, 'v, unit) lru"
  using that by (induction es arbitrary: p) (simp_all add: notify_def dispose_fields)

lemma disjoint_kept:
  "A \<subseteq> insert k B \<Longrightarrow> k \<notin> P \<Longrightarrow> B \<inter> P = {} \<Longrightarrow> A \<inter> P = {}"
  by blast

lemma disjoint_demoted:
  "A \<inter> E = {} \<Longrightarrow> A \<inter> P = {} \<Longrightarrow> P' \<subseteq> E \<union> P \<Longrightarrow> A \<inter> P' = {}"
  by blast

lemma del_twice_subset:
  "A3 = A2 - {k} \<Longrightarrow> A1 = A - {k} \<Longrightarrow> A2 \<subseteq> insert k A1 \<Longrightarrow> A3 \<subseteq> A"
  by blast

lemma disjoint_subsets:
  "S \<inter> P = {} \<Longrightarrow> P' \<subseteq> P \<Longrightarrow> S' \<subseteq> S \<Longrightarrow> S' \<inter> P' = {}"
  by blast

lemma not_in_union: "k \<notin> E \<Longrightarrow> k \<notin> P \<Longrightarrow> A \<subseteq> E \<union> P \<Longrightarrow> k \<notin> A"
  by blast

section \<open>The cache invariant\<close>

text \<open>Writing into the protected store, with the key absent from the probationary
  store: whatever is cut off moves to the probationary store, and the two stores stay
  well formed and disjoint.\<close>

lemma protected_set_inv:
  fixes s :: "('k, 'v, ('k, 'v, unit) lru) lru" and p :: "('k, 'v, unit) lru"
  assumes h: "hook s = Some dispose"
    and d: "distinct (map ekey (entries s))"
    and p: "store_ok p"
    and k: "k \<notin> ekey ` set (entries p)"
    and disj: "ekey ` set (entries s) \<inter> ekey ` set (entries p) = {}"
  shows "store_ok (fst (LRU_set k v s p))"
    and "store_ok (snd (LRU_set k v s p))"
    and "ekey ` set (entries (fst (LRU_set k v s p)))
           \<inter> ekey ` set (entries (snd (LRU_set k v s p))) = {}"
    and "capacity (snd (LRU_set k v s p)) = capacity p"
    and "weight (snd (LRU_set k v s p)) = weight p"
proof -
  obtain ev where ev: "Entry k v (weight s v) # filter (\<lambda>x. ekey x \<noteq> k) (entries s)
       = entries (fst (LRU_set k v s p)) @ ev"
    and env: "snd (LRU_set k v s p) = foldr (notify s) ev p"
    by (rule LRU_set_split)
  show "store_ok (fst (LRU_set k v s p))" using LRU_set_ok(1) [OF d] .
  have p': "snd (LRU_set k v s p) = foldr (\<lambda>e. dispose (ekey e) (evalue e)) ev p"
    using env by (simp add: notify_dispose [OF h])
  note dem = demote_all_ok [OF p, of ev]
  show "store_ok (snd (LRU_set k v s p))" unfolding p' using dem by (rule conjunct1)
  show "capacity (snd (LRU_set k v s p)) = capacity p" unfolding p' using dem by blast
  show "weight (snd (LRU_set k v s p)) = weight p" unfolding p' using dem by blast
  have dist: "distinct (map ekey (entries (fst (LRU_set k v s p)) @ ev))"
    using distinct_set_list [OF d, of k v "weight s v"] ev by simp
  then have a: "ekey ` set (entries (fst (LRU_set k v s p))) \<inter> ekey ` set ev = {}" by simp
  have sub: "ekey ` set (entries (fst (LRU_set k v s p))) \<subseteq> insert k (ekey ` set (entries s))"
    using LRU_set_ok(2) [OF d] .
  have b: "ekey ` set (entries (fst (LRU_set k v s p))) \<inter> ekey ` set (entries p) = {}"
    using sub k disj by (rule disjoint_kept)
  have c: "ekey ` set (entries (snd (LRU_set k v s p))) \<subseteq> ekey ` set ev \<union> ekey ` set (entries p)"
    unfolding p' using demote_all_keys [OF p] .
  show "ekey ` set (entries (fst (LRU_set k v s p)))
           \<inter> ekey ` set (entries (snd (LRU_set k v s p))) = {}"
    using a b c by (rule disjoint_demoted)
qed

text \<open>Promotion: the key is deleted from the probationary store, then written into the
  protected store.\<close>

lemma promote_inv:
  fixes s :: "('k, 'v, ('k, 'v, unit) lru) lru" and p :: "('k, 'v, unit) lru"
  assumes h: "hook s = Some dispose"
    and s: "store_ok s"
    and p: "store_ok p"
    and disj: "ekey ` set (entries s) \<inter> ekey ` set (entries p) = {}"
  shows "store_ok (fst (LRU_set k v s (fst (LRU_del k p ()))))"
    and "store_ok (snd (LRU_set k v s (fst (LRU_del k p ()))))"
    and "ekey ` set (entries (fst (LRU_set k v s (fst (LRU_del k p ())))))
           \<inter> ekey ` set (entries (snd (LRU_set k v s (fst (LRU_del k p ()))))) = {}"
    and "capacity (snd (LRU_set k v s (fst (LRU_del k p ())))) = capacity p"
    and "weight (snd (LRU_set k v s (fst (LRU_del k p ())))) = weight p"
proof -
  let ?p = "fst (LRU_del k p ())"
  have d: "distinct (map ekey (entries s))" using s by (simp add: store_ok_def)
  have p1: "store_ok ?p" using p by (rule LRU_del_ok)
  have k: "k \<notin> ekey ` set (entries ?p)" by (simp add: LRU_del_keys)
  have "ekey ` set (entries ?p) \<subseteq> ekey ` set (entries p)" by (simp add: LRU_del_keys)
  with disj have dj: "ekey ` set (entries s) \<inter> ekey ` set (entries ?p) = {}"
    by (rule disjoint_subsets) simp
  note r = protected_set_inv [OF h d p1 k dj, of v]
  show "store_ok (fst (LRU_set k v s ?p))" by (rule r(1))
  show "store_ok (snd (LRU_set k v s ?p))" by (rule r(2))
  show "ekey ` set (entries (fst (LRU_set k v s ?p)))
           \<inter> ekey ` set (entries (snd (LRU_set k v s ?p))) = {}" by (rule r(3))
  show "capacity (snd (LRU_set k v s ?p)) = capacity p"
    using r(4) by (simp add: LRU_del_fields)
  show "weight (snd (LRU_set k v s ?p)) = weight p"
    using r(5) by (simp add: LRU_del_fields)
qed

text \<open>When the promoted value fits the protected store, the key ends up at its most
  recently used position and is gone from the probationary store.\<close>

lemma promote_result:
  fixes s :: "('k, 'v, ('k, 'v, unit) lru) lru" and p :: "('k, 'v, unit) lru"
  assumes h: "hook s = Some dispose"
    and p: "store_ok p"
    and fits: "weight s v \<le> capacity s"
  shows "\<exists>rest. entries (fst (LRU_set k v s (fst (LRU_del k p ())))) = Entry k v (weight s v) # rest"
    and "\<not> LRU_has k (snd (LRU_set k v s (fst (LRU_del k p ()))))"
proof -
  let ?p = "fst (LRU_del k p ())"
  obtain rest ev where rest: "entries (fst (LRU_set k v s ?p)) = Entry k v (weight s v) # rest"
    and fl: "filter (\<lambda>x. ekey x \<noteq> k) (entries s) = rest @ ev"
    and env: "snd (LRU_set k v s ?p) = foldr (notify s) ev ?p"
    using LRU_set_new_head [OF fits, of k ?p] by blast
  show "\<exists>rest. entries (fst (LRU_set k v s ?p)) = Entry k v (weight s v) # rest"
    using rest by blast
  have "set ev \<subseteq> set (filter (\<lambda>x. ekey x \<noteq> k) (entries s))" by (subst fl) simp
  then have kev: "k \<notin> ekey ` set ev" by auto
  have kp: "k \<notin> ekey ` set (entries ?p)" by (simp add: LRU_del_keys)
  have p1: "store_ok ?p" using p by (rule LRU_del_ok)
  have "snd (LRU_set k v s ?p) = foldr (\<lambda>e. dispose (ekey e) (evalue e)) ev ?p"
    using env by (simp add: notify_dispose [OF h])
  then have "ekey ` set (entries (snd (LRU_set k v s ?p))) \<subseteq> ekey ` set ev \<union> ekey ` set (entries ?p)"
    using demote_all_keys [OF p1, of ev] by simp
  with kev kp have "k \<notin> ekey ` set (entries (snd (LRU_set k v s ?p)))" by (rule not_in_union)
  then show "\<not> LRU_has k (snd (LRU_set k v s ?p))" by (simp add: LRU_has_iff)
qed

lemma inv_new:
  "cache_inv (SLRU_new options)"
  "config (SLRU_new options) = options_config options"
  by (simp_all add: cache_inv_def config_def options_config_def SLRU_new_def LRU_new_def
      store_ok_def LRU_length_def)

lemma inv_get:
  assumes "cache_inv c"
  shows "cache_inv (snd (SLRU_get k c)) \<and> config (snd (SLRU_get k c)) = config c"
proof -
  let ?s = "snd (LRU_get k (protectedLru c))" and ?p = "probationaryLru c"
  from assms have h: "hook ?s = Some dispose" and s: "store_ok ?s" and p: "store_ok ?p"
    and disj: "ekey ` set (entries ?s) \<inter> ekey ` set (entries ?p) = {}"
    by (simp_all add: cache_inv_def LRU_get_fields LRU_get_ok LRU_get_keys)
  note r = promote_inv [OF h s p disj, of k "LRU_peek k ?p"]
  have stay: "cache_inv (c\<lparr>protectedLru := ?s\<rparr>) \<and> config (c\<lparr>protectedLru := ?s\<rparr>) = config c"
    using h s p disj by (simp add: cache_inv_def config_def LRU_get_fields)
  have move: "cache_inv (c\<lparr>probationaryLru := snd (LRU_set k (LRU_peek k ?p) ?s (fst (LRU_del k ?p ()))),
                           protectedLru := fst (LRU_set k (LRU_peek k ?p) ?s (fst (LRU_del k ?p ())))\<rparr>)
      \<and> config (c\<lparr>probationaryLru := snd (LRU_set k (LRU_peek k ?p) ?s (fst (LRU_del k ?p ()))),
                           protectedLru := fst (LRU_set k (LRU_peek k ?p) ?s (fst (LRU_del k ?p ())))\<rparr>) = config c"
    using r h by (simp add: cache_inv_def config_def LRU_set_fields LRU_get_fields)
  show ?thesis
    using stay move by (simp add: SLRU_get_def Let_def split_beta)
qed

lemma inv_set:
  assumes "cache_inv c"
  shows "cache_inv (SLRU_set k v c) \<and> config (SLRU_set k v c) = config c"
proof -
  let ?s = "protectedLru c" and ?p = "probationaryLru c"
  from assms have h: "hook ?s = Some dispose" and s: "store_ok ?s" and p: "store_ok ?p"
    and disj: "ekey ` set (entries ?s) \<inter> ekey ` set (entries ?p) = {}"
    by (simp_all add: cache_inv_def)
  have d: "distinct (map ekey (entries ?s))" using s by (simp add: store_ok_def)
  have dp: "distinct (map ekey (entries ?p))" using p by (simp add: store_ok_def)
  show ?thesis
  proof (cases "LRU_has k ?s")
    case True
    then have k: "k \<notin> ekey ` set (entries ?p)" using disj by (auto simp: LRU_has_iff)
    note r = protected_set_inv [OF h d p k disj, of v]
    show ?thesis using True r h
      by (simp add: SLRU_set_def split_beta cache_inv_def config_def LRU_set_fields)
  next
    case False
    note nos = this
    show ?thesis
    proof (cases "LRU_has k ?p")
      case True
      note r = promote_inv [OF h s p disj, of k v]
      show ?thesis using nos True r h
        by (simp add: SLRU_set_def Let_def split_beta cache_inv_def config_def LRU_set_fields)
    next
      case False
      have sub: "ekey ` set (entries (fst (LRU_set k v ?p ()))) \<subseteq> insert k (ekey ` set (entries ?p))"
        using LRU_set_ok(2) [OF dp] .
      have nk: "k \<notin> ekey ` set (entries ?s)" using nos by (simp add: LRU_has_iff)
      have "ekey ` set (entries (fst (LRU_set k v ?p ()))) \<inter> ekey ` set (entries ?s) = {}"
        using sub nk by (rule disjoint_kept) (use disj in blast)
      then have "ekey ` set (entries ?s) \<inter> ekey ` set (entries (fst (LRU_set k v ?p ()))) = {}"
        by (simp add: Int_commute)
      then show ?thesis using nos False h s LRU_set_ok(1) [OF dp, of k v "()"]
        by (simp add: SLRU_set_def cache_inv_def config_def LRU_set_fields)
    qed
  qed
qed

lemma inv_del:
  assumes "cache_inv c"
  shows "cache_inv (SLRU_del k c) \<and> config (SLRU_del k c) = config c"
proof -
  let ?s = "protectedLru c" and ?p = "probationaryLru c"
  let ?p1 = "fst (LRU_del k ?p ())"
  let ?s2 = "fst (LRU_del k ?s ?p1)" and ?p2 = "snd (LRU_del k ?s ?p1)"
  let ?p3 = "fst (LRU_del k ?p2 ())"
  from assms have h: "hook ?s = Some dispose" and s: "store_ok ?s" and p: "store_ok ?p"
    and disj: "ekey ` set (entries ?s) \<inter> ekey ` set (entries ?p) = {}"
    by (simp_all add: cache_inv_def)
  have p1: "store_ok ?p1" using p by (rule LRU_del_ok)
  have p2: "store_ok ?p2 \<and> capacity ?p2 = capacity ?p \<and> weight ?p2 = weight ?p
      \<and> ekey ` set (entries ?p2) \<subseteq> insert k (ekey ` set (entries ?p1))"
  proof (cases "find (\<lambda>e. ekey e = k) (entries ?s)")
    case None
    then show ?thesis using p1 by (auto simp: LRU_del_env LRU_del_fields)
  next
    case (Some e)
    then have "ekey e = k" by (auto simp: find_Some_iff)
    then have "?p2 = dispose k (evalue e) ?p1"
      using Some h by (simp add: LRU_del_env notify_def)
    then show ?thesis using dispose_ok [OF p1, of k "evalue e"]
      by (simp add: LRU_del_fields dispose_fields)
  qed
  have s2: "store_ok ?s2" using s by (rule LRU_del_ok)
  from p2 have p2ok: "store_ok ?p2"
    and p2k: "ekey ` set (entries ?p2) \<subseteq> insert k (ekey ` set (entries ?p1))"
    by simp_all
  have p3: "store_ok ?p3" using p2ok by (rule LRU_del_ok)
  have k3: "ekey ` set (entries ?p3) = ekey ` set (entries ?p2) - {k}" by (rule LRU_del_keys)
  have k1: "ekey ` set (entries ?p1) = ekey ` set (entries ?p) - {k}" by (rule LRU_del_keys)
  have sp: "ekey ` set (entries ?p3) \<subseteq> ekey ` set (entries ?p)"
    using k3 k1 p2k by (rule del_twice_subset)
  have "ekey ` set (entries ?s2) = ekey ` set (entries ?s) - {k}" by (rule LRU_del_keys)
  then have ss: "ekey ` set (entries ?s2) \<subseteq> ekey ` set (entries ?s)" by simp
  have dj: "ekey ` set (entries ?s2) \<inter> ekey ` set (entries ?p3) = {}"
    using disj sp ss by (rule disjoint_subsets)
  show ?thesis using h s2 p3 dj p2
    by (simp add: SLRU_del_def Let_def split_beta cache_inv_def config_def LRU_del_fields)
qed

lemma inv_reset:
  assumes "cache_inv c"
  shows "cache_inv (SLRU_reset c) \<and> config (SLRU_reset c) = config c"
proof -
  from assms have h: "hook (protectedLru c) = Some dispose" by (simp add: cache_inv_def)
  show ?thesis
    using h demote_foldl_fields [OF h]
    by (simp add: SLRU_reset_def LRU_reset_def cache_inv_def config_def store_ok_def LRU_length_def)
qed

lemma inv_exec:
  "cache_inv c \<Longrightarrow> cache_inv (exec call c) \<and> config (exec call c) = config c"
  by (cases call) (simp_all add: inv_get inv_set inv_del inv_reset)

lemma inv_run_from:
  "cache_inv c \<Longrightarrow> cache_inv (run calls c) \<and> config (run calls c) = config c"
proof (induction calls arbitrary: c)
  case Nil
  then show ?case by (simp add: run_def)
next
  case (Cons call calls)
  from inv_exec [OF Cons.prems, of call]
  have "cache_inv (exec call c)" and e: "config (exec call c) = config c" by simp_all
  from Cons.IH [OF this(1)] e show ?case by (simp add: run_def)
qed

text \<open>Every cache reached from the constructor by public calls satisfies the invariant
  and keeps the configuration it was built with.\<close>

lemma inv_run:
  "cache_inv (run calls (SLRU_new options))"
  "config (run calls (SLRU_new options)) = options_config options"
  using inv_run_from [OF inv_new(1), of calls options] inv_new(2) [of options] by simp_all

section \<open>Claims of the specification\<close>

text \<open>
  C1 (mutual exclusion). After any sequence of \<^verbatim>\<open>get\<close>, \<^verbatim>\<open>peek\<close>, \<^verbatim>\<open>set\<close>, \<^verbatim>\<open>del\<close>,
  \<^verbatim>\<open>has\<close> and \<^verbatim>\<open>reset\<close> calls on a freshly constructed cache, whatever its options, no key
  is present in both the protected and the probationary segment. The sequence is
  arbitrary, so this holds at every point where a call has returned.
\<close>

theorem C1_mutual_exclusion:
  "\<not> (LRU_has k (protectedLru (run calls (SLRU_new options)))
      \<and> LRU_has k (probationaryLru (run calls (SLRU_new options))))"
proof
  assume both: "LRU_has k (protectedLru (run calls (SLRU_new options)))
      \<and> LRU_has k (probationaryLru (run calls (SLRU_new options)))"
  have "ekey ` set (entries (protectedLru (run calls (SLRU_new options))))
      \<inter> ekey ` set (entries (probationaryLru (run calls (SLRU_new options)))) = {}"
    using inv_run(1) [of calls options] by (simp add: cache_inv_def)
  with both show False by (auto simp: LRU_has_iff)
qed

theorem C1_mutual_exclusion_witness:
  "\<not> (LRU_has ''0'' (protectedLru (run setupCalls (SLRU_new options22)))
      \<and> LRU_has ''0'' (probationaryLru (run setupCalls (SLRU_new options22))))"
  by (rule C1_mutual_exclusion)

text \<open>
  C2 (capacity). After any sequence of public calls on a freshly constructed cache, the
  cumulative weighted size of each segment is at most the capacity that segment was
  configured with.
\<close>

theorem C2_capacity:
  "LRU_length (protectedLru (run calls (SLRU_new options)))
     \<le> options_max (protectedOptions options)
   \<and> LRU_length (probationaryLru (run calls (SLRU_new options)))
     \<le> options_max (probationaryOptions options)"
proof -
  let ?c = "run calls (SLRU_new options)"
  have "store_ok (protectedLru ?c)" "store_ok (probationaryLru ?c)"
    using inv_run(1) [of calls options] by (simp_all add: cache_inv_def)
  moreover have "capacity (protectedLru ?c) = options_max (protectedOptions options)"
    "capacity (probationaryLru ?c) = options_max (probationaryOptions options)"
    using inv_run(2) [of calls options] by (simp_all add: config_def options_config_def)
  ultimately show ?thesis by (simp add: store_ok_def)
qed

theorem C2_capacity_witness:
  "LRU_length (protectedLru setupCache) \<le> 2 \<and> LRU_length (probationaryLru setupCache) \<le> 2"
  using C2_capacity [of setupCalls options22] by (simp add: setupCache_def options22_def)

text \<open>
  C3 (promotion). As stated, for every key present in the probationary segment, the
  claim fails in two cases. A key stored with the value \<^verbatim>\<open>undefined\<close> is taken for a miss
  by \<^verbatim>\<open>get\<close> and stays where it is. A value heavier than the whole protected segment is
  cut off again at once and demoted back to the probationary segment.
\<close>

theorem C3_promotion_counterexample:
  "(LRU_has ''k'' (probationaryLru (SLRU_set ''k'' Undefined (SLRU_new options22)))
    \<and> \<not> LRU_has ''k'' (protectedLru (SLRU_set ''k'' Undefined (SLRU_new options22)))
    \<and> LRU_has ''k'' (probationaryLru
          (snd (SLRU_get ''k'' (SLRU_set ''k'' Undefined (SLRU_new options22)))))
    \<and> \<not> LRU_has ''k'' (protectedLru
          (snd (SLRU_get ''k'' (SLRU_set ''k'' Undefined (SLRU_new options22))))))
   \<and> (LRU_has ''k'' (probationaryLru (SLRU_set ''k'' (Val ''v'') (SLRU_new narrowOptions)))
    \<and> \<not> LRU_has ''k'' (protectedLru (SLRU_set ''k'' (Val ''v'') (SLRU_new narrowOptions)))
    \<and> fst (SLRU_get ''k'' (SLRU_set ''k'' (Val ''v'') (SLRU_new narrowOptions))) = Val ''v''
    \<and> LRU_has ''k'' (probationaryLru
          (snd (SLRU_get ''k'' (SLRU_set ''k'' (Val ''v'') (SLRU_new narrowOptions)))))
    \<and> \<not> LRU_has ''k'' (protectedLru
          (snd (SLRU_get ''k'' (SLRU_set ''k'' (Val ''v'') (SLRU_new narrowOptions))))))"
  by code_simp

text \<open>
  C3, amended. In a cache reached from the constructor, let \<open>k\<close> be in the probationary
  segment with a value \<open>v\<close> other than \<^verbatim>\<open>undefined\<close> whose weight is at most the capacity
  of the protected segment. Then \<^verbatim>\<open>get(k)\<close> returns \<open>v\<close>, removes \<open>k\<close> from the
  probationary segment and inserts it into the protected segment at the most recently
  used position; afterwards \<open>k\<close> is found in the protected segment, with value \<open>v\<close>, and
  not in the probationary one.
\<close>

theorem C3_promotion:
  assumes c: "c = run calls (SLRU_new options)"
    and v: "LRU_peek k (probationaryLru c) = v"
    and defined: "v \<noteq> Undefined"
    and fits: "options_length (protectedOptions options) v \<le> options_max (protectedOptions options)"
  shows "fst (SLRU_get k c) = v
    \<and> \<not> LRU_has k (probationaryLru (snd (SLRU_get k c)))
    \<and> (\<exists>rest. entries (protectedLru (snd (SLRU_get k c)))
          = Entry k v (options_length (protectedOptions options) v) # rest)
    \<and> LRU_has k (protectedLru (snd (SLRU_get k c)))
    \<and> LRU_peek k (protectedLru (snd (SLRU_get k c))) = v"
proof -
  let ?s = "protectedLru c" and ?p = "probationaryLru c"
  have inv: "cache_inv c" and cfg: "config c = options_config options"
    using inv_run [of calls options] c by simp_all
  from inv have h: "hook ?s = Some dispose" and p: "store_ok ?p"
    and disj: "ekey ` set (entries ?s) \<inter> ekey ` set (entries ?p) = {}"
    by (simp_all add: cache_inv_def)
  from cfg have w: "weight ?s = options_length (protectedOptions options)"
    and cap: "capacity ?s = options_max (protectedOptions options)"
    by (simp_all add: config_def options_config_def)
  have "LRU_has k ?p" using v defined by (auto intro: LRU_peek_present)
  then have "k \<in> ekey ` set (entries ?p)" by (simp add: LRU_has_iff)
  with disj have "k \<notin> ekey ` set (entries ?s)" by blast
  then have miss: "LRU_get k ?s = (Undefined, ?s)" by (simp add: LRU_get_miss LRU_has_iff)
  have get: "SLRU_get k c =
      (v, c\<lparr>probationaryLru := snd (LRU_set k v ?s (fst (LRU_del k ?p ()))),
            protectedLru := fst (LRU_set k v ?s (fst (LRU_del k ?p ())))\<rparr>)"
    using miss v defined by (simp add: SLRU_get_def Let_def split_beta)
  have f: "weight ?s v \<le> capacity ?s" using fits w cap by simp
  from promote_result(1) [OF h p f, of k] obtain rest where
    rest: "entries (fst (LRU_set k v ?s (fst (LRU_del k ?p ())))) = Entry k v (weight ?s v) # rest"
    by blast
  note gone = promote_result(2) [OF h p f, of k]
  from LRU_head_lookup [OF rest] rest gone show ?thesis
    by (simp add: get w)
qed

theorem C3_promotion_witness:
  "LRU_peek ''2'' (probationaryLru setupCache) = Val ''2''
   \<and> Val ''2'' \<noteq> (Undefined :: string jsval)
   \<and> options_length (protectedOptions options22) (Val ''2'') \<le> options_max (protectedOptions options22)
   \<and> fst (SLRU_get ''2'' setupCache) = Val ''2''
   \<and> \<not> LRU_has ''2'' (probationaryLru (snd (SLRU_get ''2'' setupCache)))
   \<and> LRU_has ''2'' (protectedLru (snd (SLRU_get ''2'' setupCache)))
   \<and> LRU_peek ''2'' (protectedLru (snd (SLRU_get ''2'' setupCache))) = Val ''2''"
proof -
  have v: "LRU_peek ''2'' (probationaryLru setupCache) = Val ''2''" by code_simp
  have d: "Val ''2'' \<noteq> (Undefined :: string jsval)" by simp
  have f: "options_length (protectedOptions options22) (Val ''2'')
      \<le> options_max (protectedOptions options22)"
    by (simp add: options22_def)
  from C3_promotion [OF setupCache_def v d f] v d f show ?thesis by simp
qed

text \<open>
  C4 (delete purges both segments). For every cache state and key, \<^verbatim>\<open>del(k)\<close> deletes \<open>k\<close>
  from the probationary store, then from the protected store, then from the
  probationary store once more; afterwards \<open>k\<close> is in neither segment and \<^verbatim>\<open>has(k)\<close> is
  false. The second deletion matters: when \<open>k\<close> was protected, with a value that fits the
  probationary store, the removal hook has put it back there after the first two steps.
\<close>

theorem C4_delete_purges:
  "SLRU_del k c =
     c\<lparr>probationaryLru :=
          fst (LRU_del k (snd (LRU_del k (protectedLru c) (fst (LRU_del k (probationaryLru c) ())))) ()),
        protectedLru := fst (LRU_del k (protectedLru c) (fst (LRU_del k (probationaryLru c) ())))\<rparr>
   \<and> \<not> LRU_has k (probationaryLru (SLRU_del k c))
   \<and> \<not> LRU_has k (protectedLru (SLRU_del k c))
   \<and> \<not> SLRU_has k (SLRU_del k c)
   \<and> (hook (protectedLru c) = Some dispose \<and> LRU_has k (protectedLru c)
        \<and> weight (probationaryLru c) (LRU_peek k (protectedLru c)) \<le> capacity (probationaryLru c)
      \<longrightarrow> LRU_has k (snd (LRU_del k (protectedLru c) (fst (LRU_del k (probationaryLru c) ())))))"
proof -
  let ?p1 = "fst (LRU_del k (probationaryLru c) ())"
  have steps: "SLRU_del k c =
     c\<lparr>probationaryLru := fst (LRU_del k (snd (LRU_del k (protectedLru c) ?p1)) ()),
        protectedLru := fst (LRU_del k (protectedLru c) ?p1)\<rparr>"
    by (simp add: SLRU_del_def Let_def split_beta)
  have gone: "\<not> LRU_has k (probationaryLru (SLRU_del k c))"
    "\<not> LRU_has k (protectedLru (SLRU_del k c))"
    by (simp_all add: steps LRU_del_absent)
  have reinserted: "LRU_has k (snd (LRU_del k (protectedLru c) ?p1))"
    if h: "hook (protectedLru c) = Some dispose" and k: "LRU_has k (protectedLru c)"
      and fits: "weight (probationaryLru c) (LRU_peek k (protectedLru c)) \<le> capacity (probationaryLru c)"
  proof -
    from k obtain e where e: "find (\<lambda>e. ekey e = k) (entries (protectedLru c)) = Some e"
      by (auto simp: LRU_has_def)
    then have ke: "ekey e = k" by (auto simp: find_Some_iff)
    have v: "LRU_peek k (protectedLru c) = evalue e" using e by (simp add: LRU_peek_def)
    have "snd (LRU_del k (protectedLru c) ?p1) = fst (LRU_set k (evalue e) ?p1 ())"
      using e h ke by (simp add: LRU_del_env notify_def dispose_def)
    moreover have "weight ?p1 (evalue e) \<le> capacity ?p1"
      using fits v by (simp add: LRU_del_fields)
    then obtain rest where
      "entries (fst (LRU_set k (evalue e) ?p1 ())) = Entry k (evalue e) (weight ?p1 (evalue e)) # rest"
      using LRU_set_new_head [of ?p1 "evalue e" k "()"] by blast
    ultimately show ?thesis using LRU_head_lookup by metis
  qed
  from steps gone reinserted show ?thesis by (simp add: SLRU_has_def)
qed

theorem C4_delete_purges_witness:
  "hook (protectedLru setupCache) = Some dispose \<and> LRU_has ''0'' (protectedLru setupCache)
   \<and> weight (probationaryLru setupCache) (LRU_peek ''0'' (protectedLru setupCache))
        \<le> capacity (probationaryLru setupCache)
   \<and> LRU_has ''0'' (snd (LRU_del ''0'' (protectedLru setupCache)
         (fst (LRU_del ''0'' (probationaryLru setupCache) ()))))
   \<and> \<not> LRU_has ''0'' (probationaryLru (SLRU_del ''0'' setupCache))
   \<and> \<not> LRU_has ''0'' (protectedLru (SLRU_del ''0'' setupCache))
   \<and> \<not> SLRU_has ''0'' (SLRU_del ''0'' setupCache)"
proof -
  have h: "hook (protectedLru setupCache) = Some dispose"
    using inv_run(1) [of setupCalls options22] by (simp add: cache_inv_def setupCache_def)
  have k: "LRU_has ''0'' (protectedLru setupCache)" by code_simp
  have f: "weight (probationaryLru setupCache) (LRU_peek ''0'' (protectedLru setupCache))
        \<le> capacity (probationaryLru setupCache)" by code_simp
  from C4_delete_purges [of "''0''" setupCache, THEN conjunct2] h k f show ?thesis by simp
qed

text \<open>
  C5 (reset completeness). For every cache state, \<^verbatim>\<open>reset()\<close> resets the protected store
  first, its removal hook acting on the probationary store, and the probationary store
  after that; both segments end up empty, so the item count and total size are 0 and
  \<^verbatim>\<open>has(k)\<close> is false for every key.
\<close>

theorem C5_reset_completeness:
  "SLRU_reset c =
     c\<lparr>probationaryLru := fst (LRU_reset (snd (LRU_reset (protectedLru c) (probationaryLru c))) ()),
        protectedLru := fst (LRU_reset (protectedLru c) (probationaryLru c))\<rparr>
   \<and> entries (protectedLru (SLRU_reset c)) = []
   \<and> entries (probationaryLru (SLRU_reset c)) = []
   \<and> SLRU_itemCount (SLRU_reset c) = 0
   \<and> SLRU_length (SLRU_reset c) = 0
   \<and> \<not> SLRU_has k (SLRU_reset c)"
  by (simp add: SLRU_reset_def LRU_reset_def SLRU_itemCount_def LRU_itemCount_def
      SLRU_length_def LRU_length_def SLRU_has_def LRU_has_def)

text \<open>On the cache of \<^verbatim>\<open>setupCache()\<close>, both segments are populated, and resetting the
  protected store alone leaves its two entries in the probationary store.\<close>

theorem C5_reset_completeness_witness:
  "LRU_keys (protectedLru setupCache) = [''1'', ''0'']
   \<and> LRU_keys (probationaryLru setupCache) = [''3'', ''2'']
   \<and> LRU_keys (snd (LRU_reset (protectedLru setupCache) (probationaryLru setupCache))) = [''0'', ''1'']
   \<and> SLRU_itemCount (SLRU_reset setupCache) = 0
   \<and> \<not> SLRU_has ''0'' (SLRU_reset setupCache) \<and> \<not> SLRU_has ''1'' (SLRU_reset setupCache)
   \<and> \<not> SLRU_has ''2'' (SLRU_reset setupCache) \<and> \<not> SLRU_has ''3'' (SLRU_reset setupCache)"
proof -
  have a: "LRU_keys (protectedLru setupCache) = [''1'', ''0'']" by code_simp
  have b: "LRU_keys (probationaryLru setupCache) = [''3'', ''2'']" by code_simp
  have m: "LRU_keys (snd (LRU_reset (protectedLru setupCache) (probationaryLru setupCache)))
      = [''0'', ''1'']" by code_simp
  note r = C5_reset_completeness [of setupCache, THEN conjunct2]
  from a b m r [of "''0''"] r [of "''1''"] r [of "''2''"] r [of "''3''"] show ?thesis
    by simp
qed

text \<open>
  C6 (demotion cascade). On a fresh cache with both capacities 2, after
  \<^verbatim>\<open>set(0,'0'); get(0); set(1,'1'); get(1); set(2,'2'); get(2)\<close> key 0 is in the
  probationary segment and keys 2 and 1 (in recency order) are in the protected segment:
  the third promotion demoted key 0, with its value, instead of destroying it.
\<close>

theorem C6_demotion_cascade:
  "LRU_keys (protectedLru (run cascadeCalls (SLRU_new options22))) = [''2'', ''1'']
   \<and> LRU_keys (probationaryLru (run cascadeCalls (SLRU_new options22))) = [''0'']
   \<and> LRU_peek ''0'' (probationaryLru (run cascadeCalls (SLRU_new options22))) = Val ''0''
   \<and> SLRU_peek ''0'' (run cascadeCalls (SLRU_new options22)) = Val ''0''"
  by code_simp




lemma foldl_collect: "foldl (\<lambda>a e. a @ [f e]) acc es = acc @ map f es"
  by (induction es arbitrary: acc) simp_all

text \<open>
  C9 (iteration order). For every cache state, \<^verbatim>\<open>forEach\<close> calls the visitor on the
  entries of the protected segment from the most to the least recently used and then on
  those of the probationary segment in the same direction; \<^verbatim>\<open>rforEach\<close> visits the
  protected segment first as well, each segment from the least to the most recently
  used; \<^verbatim>\<open>keys()\<close> and \<^verbatim>\<open>values()\<close> are the keys and values of the two segments,
  protected first, which is the order in which \<^verbatim>\<open>forEach\<close> sees them.
\<close>

theorem C9_iteration_order:
  "SLRU_forEach callbackFn c acc
     = foldl (\<lambda>a e. callbackFn (evalue e) (ekey e) a) acc
         (entries (protectedLru c) @ entries (probationaryLru c))
   \<and> SLRU_rforEach callbackFn c acc
     = foldl (\<lambda>a e. callbackFn (evalue e) (ekey e) a) acc
         (rev (entries (protectedLru c)) @ rev (entries (probationaryLru c)))
   \<and> SLRU_keys c = map ekey (entries (protectedLru c) @ entries (probationaryLru c))
   \<and> SLRU_values c = map evalue (entries (protectedLru c) @ entries (probationaryLru c))
   \<and> SLRU_forEach (\<lambda>v k seen. seen @ [k]) c [] = SLRU_keys c
   \<and> SLRU_forEach (\<lambda>v k seen. seen @ [v]) c [] = SLRU_values c"
  by (simp add: SLRU_forEach_def SLRU_rforEach_def LRU_forEach_def LRU_rforEach_def
      SLRU_keys_def SLRU_values_def LRU_keys_def LRU_values_def foldl_collect)

theorem C9_iteration_order_witness:
  "SLRU_forEach (\<lambda>v k seen. seen @ [(k, v)]) setupCache []
     = [(''1'', Val ''1''), (''0'', Val ''0''), (''3'', Val ''3''), (''2'', Val ''2'')]
   \<and> SLRU_rforEach (\<lambda>v k seen. seen @ [(k, v)]) setupCache []
     = [(''0'', Val ''0''), (''1'', Val ''1''), (''2'', Val ''2''), (''3'', Val ''3'')]
   \<and> SLRU_keys setupCache = [''1'', ''0'', ''3'', ''2'']
   \<and> SLRU_values setupCache = [Val ''1'', Val ''0'', Val ''3'', Val ''2'']"
proof -
  have a: "entries (protectedLru setupCache) = [Entry ''1'' (Val ''1'') 1, Entry ''0'' (Val ''0'') 1]"
    by code_simp
  have b: "entries (probationaryLru setupCache) = [Entry ''3'' (Val ''3'') 1, Entry ''2'' (Val ''2'') 1]"
    by code_simp
  note r = C9_iteration_order [of _ setupCache "[]"]
  from r [of "\<lambda>v k seen. seen @ [(k, v)]"] a b show ?thesis by simp
qed

text \<open>
  C10 (the absent sentinel as a value). For every cache state and every key \<open>k\<close> stored
  with the value \<^verbatim>\<open>undefined\<close>: \<^verbatim>\<open>has(k)\<close> is true, \<^verbatim>\<open>peek(k)\<close> and \<^verbatim>\<open>get(k)\<close> return
  \<^verbatim>\<open>undefined\<close>, and \<^verbatim>\<open>get(k)\<close> promotes nothing: the probationary segment is left as it
  was and the protected segment holds the same keys as before. For every key that is not
  stored at all, \<^verbatim>\<open>peek(k)\<close> and \<^verbatim>\<open>get(k)\<close> return \<^verbatim>\<open>undefined\<close> as well, \<^verbatim>\<open>get(k)\<close>
  leaving the cache as it was, while \<^verbatim>\<open>has(k)\<close> is false. So \<^verbatim>\<open>get\<close> and \<^verbatim>\<open>peek\<close> answer a
  stored \<^verbatim>\<open>undefined\<close> exactly as they answer a miss, and \<^verbatim>\<open>has\<close> tells the two apart.
\<close>

theorem C10_undefined_value:
  "(stored_undefined k c \<longrightarrow>
      SLRU_has k c
      \<and> SLRU_peek k c = Undefined
      \<and> fst (SLRU_get k c) = Undefined
      \<and> probationaryLru (snd (SLRU_get k c)) = probationaryLru c
      \<and> set (LRU_keys (protectedLru (snd (SLRU_get k c)))) = set (LRU_keys (protectedLru c)))
   \<and> (not_stored k c \<longrightarrow>
      \<not> SLRU_has k c
      \<and> SLRU_peek k c = Undefined
      \<and> fst (SLRU_get k c) = Undefined
      \<and> snd (SLRU_get k c) = c)"
proof (intro conjI impI)
  assume stored: "stored_undefined k c"
  have undef: "LRU_peek k s = Undefined"
    if "list_all (\<lambda>e. ekey e = k \<longrightarrow> evalue e = Undefined) (entries s)"
    for s :: "('a, 'b, 'e) lru"
    using that
    by (auto simp: LRU_peek_def list_all_iff find_Some_iff split: option.splits)
  from stored have s: "LRU_peek k (protectedLru c) = Undefined"
    and p: "LRU_peek k (probationaryLru c) = Undefined"
    by (simp_all add: stored_undefined_def undef)
  have g: "fst (LRU_get k (protectedLru c)) = LRU_peek k (protectedLru c)"
    by (simp add: LRU_get_def LRU_peek_def split: option.splits)
  have get: "SLRU_get k c = (Undefined, c\<lparr>protectedLru := snd (LRU_get k (protectedLru c))\<rparr>)"
    using s p g by (simp add: SLRU_get_def Let_def split_beta)
  show "SLRU_has k c"
    using stored by (auto simp: stored_undefined_def SLRU_has_def LRU_has_iff list_ex_iff)
  show "SLRU_peek k c = Undefined" using s p by (simp add: SLRU_peek_def)
  show "fst (SLRU_get k c) = Undefined" by (simp add: get)
  show "probationaryLru (snd (SLRU_get k c)) = probationaryLru c" by (simp add: get)
  show "set (LRU_keys (protectedLru (snd (SLRU_get k c)))) = set (LRU_keys (protectedLru c))"
    using LRU_get_keys [of k "protectedLru c"] by (simp add: get LRU_keys_def)
next
  assume "not_stored k c"
  then have s: "\<not> LRU_has k (protectedLru c)" and p: "\<not> LRU_has k (probationaryLru c)"
    by (auto simp: not_stored_def LRU_has_iff list_ex_iff)
  have ps: "LRU_peek k (protectedLru c) = Undefined"
    using s by (simp add: LRU_has_def LRU_peek_def)
  have pp: "LRU_peek k (probationaryLru c) = Undefined"
    using p by (simp add: LRU_has_def LRU_peek_def)
  have get: "SLRU_get k c = (Undefined, c)"
    using LRU_get_miss [OF s] pp by (simp add: SLRU_get_def)
  show "\<not> SLRU_has k c" using s p by (simp add: SLRU_has_def)
  show "SLRU_peek k c = Undefined" using ps pp by (simp add: SLRU_peek_def)
  show "fst (SLRU_get k c) = Undefined" by (simp add: get)
  show "snd (SLRU_get k c) = c" by (simp add: get)
qed

text \<open>On the cache of \<^verbatim>\<open>setupCache()\<close> after \<^verbatim>\<open>set('u', undefined)\<close>: the key \<^verbatim>\<open>'u'\<close> is
  stored with \<^verbatim>\<open>undefined\<close>, the key \<^verbatim>\<open>'x'\<close> is not stored.\<close>

theorem C10_undefined_value_witness:
  "stored_undefined ''u'' (SLRU_set ''u'' Undefined setupCache)
   \<and> SLRU_has ''u'' (SLRU_set ''u'' Undefined setupCache)
   \<and> SLRU_peek ''u'' (SLRU_set ''u'' Undefined setupCache) = Undefined
   \<and> fst (SLRU_get ''u'' (SLRU_set ''u'' Undefined setupCache)) = Undefined
   \<and> LRU_keys (probationaryLru (snd (SLRU_get ''u'' (SLRU_set ''u'' Undefined setupCache))))
       = [''u'', ''3'']
   \<and> set (LRU_keys (protectedLru (snd (SLRU_get ''u'' (SLRU_set ''u'' Undefined setupCache)))))
       = {''0'', ''1''}
   \<and> not_stored ''x'' (SLRU_set ''u'' Undefined setupCache)
   \<and> \<not> SLRU_has ''x'' (SLRU_set ''u'' Undefined setupCache)
   \<and> SLRU_peek ''x'' (SLRU_set ''u'' Undefined setupCache) = Undefined
   \<and> fst (SLRU_get ''x'' (SLRU_set ''u'' Undefined setupCache)) = Undefined
   \<and> snd (SLRU_get ''x'' (SLRU_set ''u'' Undefined setupCache))
       = SLRU_set ''u'' Undefined setupCache"
proof -
  have u: "stored_undefined ''u'' (SLRU_set ''u'' Undefined setupCache)" by code_simp
  have x: "not_stored ''x'' (SLRU_set ''u'' Undefined setupCache)" by code_simp
  have p: "LRU_keys (probationaryLru (SLRU_set ''u'' Undefined setupCache)) = [''u'', ''3'']"
    by code_simp
  have s: "LRU_keys (protectedLru (SLRU_set ''u'' Undefined setupCache)) = [''1'', ''0'']"
    by code_simp
  note stored = C10_undefined_value [of "''u''" "SLRU_set ''u'' Undefined setupCache",
      THEN conjunct1, rule_format, OF u]
  note missed = C10_undefined_value [of "''x''" "SLRU_set ''u'' Undefined setupCache",
      THEN conjunct2, rule_format, OF x]
  from stored missed u x p s show ?thesis by auto
qed

end
